theory Spec2Isabelle
  imports Complex_Main "HOL-Library.Log_Nat"
begin

section \<open>Factory Physics line model (factoryphysics.py)\<close>

text \<open>
  The module holds one class, \<^verbatim>\<open>ProductionLine\<close>, whose methods are the closed-form
  laws relating work in process (WIP) to cycle time (CT) and throughput (TH), and the
  function \<^verbatim>\<open>df_scenarios\<close>, which tabulates the six laws over the WIP levels
  \<open>1 .. max_wip\<close>.

  The parameters \<^verbatim>\<open>r_b\<close>, \<^verbatim>\<open>T_0\<close> and the WIP level \<^verbatim>\<open>w\<close> are Python numbers. The model
  covers the two built-in kinds the module is used with: \<^verbatim>\<open>int\<close> (unbounded) and
  \<^verbatim>\<open>float\<close> (IEEE 754 binary64, every operation rounded to nearest, ties to even), with
  the conversions and the exceptions of CPython: \<^verbatim>\<open>ZeroDivisionError\<close> for a zero
  divisor and \<^verbatim>\<open>OverflowError\<close> for an \<^verbatim>\<open>int\<close> that has no \<^verbatim>\<open>float\<close> value. The module has no
  \<^verbatim>\<open>raise\<close> statement of its own. Every operation returns \<open>error + value\<close>, with \<open>Inl\<close>
  for a raised exception.
\<close>

subsection \<open>Binary64 floating point\<close>

text \<open>
  A \<^verbatim>\<open>float\<close> is a finite value, an infinity or a NaN. A finite value is kept as the
  rational number it denotes. The two zeros \<^verbatim>\<open>0.0\<close> and \<^verbatim>\<open>-0.0\<close> are one value
  \<open>Finite 0\<close>: Python's comparisons identify them, and the only operation that could tell
  them apart, division by zero, raises for both.
\<close>

datatype double = Finite rat | PosInf | NegInf | NaN

text \<open>Rounding a rational to the nearest integer, ties to the even one.\<close>

definition round_half_even :: "rat \<Rightarrow> int" where
  "round_half_even x =
     (let f = \<lfloor>x\<rfloor>; d = x - of_int f
      in if d < 1/2 then f else if 1/2 < d then f + 1 else if even f then f else f + 1)"

text \<open>The binary exponent of a positive rational: \<open>2 ^ e \<le> x < 2 ^ (e + 1)\<close>.\<close>

definition floor_log2 :: "rat \<Rightarrow> int" where
  "floor_log2 x = (if 1 \<le> x then bitlen \<lfloor>x\<rfloor> - 1 else - bitlen (\<lceil>1 / x\<rceil> - 1))"

text \<open>
  The exponent of the binade a value is rounded in: that of the value, and that of the
  smallest normal number \<open>2 ^ -1022\<close> for anything below (the subnormal range).
\<close>

definition expo :: "rat \<Rightarrow> int" where
  "expo x = max (floor_log2 \<bar>x\<bar>) (- 1022)"

text \<open>
  Rounding to 53 significant bits with the exponent unbounded above: the nearest multiple
  of the unit in the last place \<open>2 ^ (e - 52)\<close>.
\<close>

definition round_unbounded :: "rat \<Rightarrow> rat" where
  "round_unbounded x =
     (if x = 0 then 0
      else of_int (round_half_even (x / 2 powi (expo x - 52))) * 2 powi (expo x - 52))"

text \<open>Rounding to binary64: a rounded magnitude of \<open>2 ^ 1024\<close> or more overflows.\<close>

definition round_double :: "rat \<Rightarrow> double" where
  "round_double x =
     (let r = round_unbounded x
      in if 2 ^ 1024 \<le> \<bar>r\<bar> then (if 0 < r then PosInf else NegInf) else Finite r)"

text \<open>The rationals that are values of \<^verbatim>\<open>float\<close>.\<close>

definition is_double :: "rat \<Rightarrow> bool" where
  "is_double q \<longleftrightarrow> round_double q = Finite q"

text \<open>The sign of a value: \<open>1\<close>, \<open>-1\<close>, and \<open>0\<close> for zero and NaN.\<close>

fun dsign :: "double \<Rightarrow> int" where
  "dsign (Finite q) = (if 0 < q then 1 else if q < 0 then - 1 else 0)"
| "dsign PosInf = 1"
| "dsign NegInf = - 1"
| "dsign NaN = 0"

definition inf_of_sign :: "int \<Rightarrow> double" where
  "inf_of_sign s = (if s = 0 then NaN else if 0 < s then PosInf else NegInf)"

fun is_finite :: "double \<Rightarrow> bool" where
  "is_finite (Finite q) = True"
| "is_finite _ = False"

fun fneg :: "double \<Rightarrow> double" where
  "fneg (Finite q) = Finite (- q)"
| "fneg PosInf = NegInf"
| "fneg NegInf = PosInf"
| "fneg NaN = NaN"

fun fadd :: "double \<Rightarrow> double \<Rightarrow> double" where
  "fadd (Finite a) (Finite b) = round_double (a + b)"
| "fadd NaN y = NaN"
| "fadd x NaN = NaN"
| "fadd PosInf NegInf = NaN"
| "fadd NegInf PosInf = NaN"
| "fadd PosInf y = PosInf"
| "fadd NegInf y = NegInf"
| "fadd (Finite a) y = y"

definition fsub :: "double \<Rightarrow> double \<Rightarrow> double" where
  "fsub x y = fadd x (fneg y)"

fun fmul :: "double \<Rightarrow> double \<Rightarrow> double" where
  "fmul (Finite a) (Finite b) = round_double (a * b)"
| "fmul NaN y = NaN"
| "fmul x NaN = NaN"
| "fmul x y = inf_of_sign (dsign x * dsign y)"

text \<open>
  Division by a value other than zero (a zero divisor never reaches it, see
  \<open>py_truediv\<close>).
\<close>

fun fdiv :: "double \<Rightarrow> double \<Rightarrow> double" where
  "fdiv (Finite a) (Finite b) = round_double (a / b)"
| "fdiv NaN y = NaN"
| "fdiv x NaN = NaN"
| "fdiv (Finite a) y = Finite 0"
| "fdiv x (Finite b) = inf_of_sign (dsign x * dsign (Finite b))"
| "fdiv x y = NaN"

text \<open>The comparison \<^verbatim>\<open><=\<close> of two values; false when either is a NaN.\<close>

fun fle :: "double \<Rightarrow> double \<Rightarrow> bool" where
  "fle (Finite a) (Finite b) = (a \<le> b)"
| "fle NaN y = False"
| "fle x NaN = False"
| "fle NegInf y = True"
| "fle x PosInf = True"
| "fle x y = False"

subsection \<open>Python numbers\<close>

datatype pynum = PInt int | PFloat double

datatype error = ZeroDivisionError | OverflowError

text \<open>
  The values Python can hold: any \<^verbatim>\<open>int\<close>, and a \<^verbatim>\<open>float\<close> whose finite value is a
  binary64 number.
\<close>

fun is_num :: "pynum \<Rightarrow> bool" where
  "is_num (PInt n) = True"
| "is_num (PFloat (Finite q)) = is_double q"
| "is_num (PFloat x) = True"

text \<open>
  The conversion every float operation applies to its operands: a \<^verbatim>\<open>float\<close> is taken as
  it is, an \<^verbatim>\<open>int\<close> is rounded to the nearest \<^verbatim>\<open>float\<close>, and raises \<^verbatim>\<open>OverflowError\<close> when
  that is not finite.
\<close>

fun float_of :: "pynum \<Rightarrow> error + double" where
  "float_of (PFloat x) = Inr x"
| "float_of (PInt n) =
     (case round_double (of_int n) of
        Finite r \<Rightarrow> Inr (Finite r)
      | _ \<Rightarrow> Inl OverflowError)"

text \<open>
  An arithmetic operator with a \<^verbatim>\<open>float\<close> operand: the left operand is converted, then
  the right one, then the float operation is applied.
\<close>

definition float_binop :: "(double \<Rightarrow> double \<Rightarrow> double) \<Rightarrow> pynum \<Rightarrow> pynum \<Rightarrow> error + pynum" where
  "float_binop f x y =
     (case float_of x of
        Inl e \<Rightarrow> Inl e
      | Inr a \<Rightarrow> (case float_of y of
                    Inl e \<Rightarrow> Inl e
                  | Inr b \<Rightarrow> Inr (PFloat (f a b))))"

text \<open>\<^verbatim>\<open>x * y\<close>, \<^verbatim>\<open>x + y\<close>, \<^verbatim>\<open>x - y\<close>: exact on two \<^verbatim>\<open>int\<close>s, float arithmetic otherwise.\<close>

fun py_mul :: "pynum \<Rightarrow> pynum \<Rightarrow> error + pynum" where
  "py_mul (PInt a) (PInt b) = Inr (PInt (a * b))"
| "py_mul x y = float_binop fmul x y"

fun py_add :: "pynum \<Rightarrow> pynum \<Rightarrow> error + pynum" where
  "py_add (PInt a) (PInt b) = Inr (PInt (a + b))"
| "py_add x y = float_binop fadd x y"

fun py_sub :: "pynum \<Rightarrow> pynum \<Rightarrow> error + pynum" where
  "py_sub (PInt a) (PInt b) = Inr (PInt (a - b))"
| "py_sub x y = float_binop fsub x y"

text \<open>
  \<^verbatim>\<open>x / y\<close>. On two \<^verbatim>\<open>int\<close>s: \<^verbatim>\<open>ZeroDivisionError\<close> for a zero divisor, else the
  correctly rounded quotient, and \<^verbatim>\<open>OverflowError\<close> when that is not finite. Otherwise
  both operands are converted, a zero divisor raises \<^verbatim>\<open>ZeroDivisionError\<close>, and the
  float division is applied.
\<close>

fun py_truediv :: "pynum \<Rightarrow> pynum \<Rightarrow> error + pynum" where
  "py_truediv (PInt a) (PInt b) =
     (if b = 0 then Inl ZeroDivisionError
      else (case round_double (of_int a / of_int b) of
              Finite r \<Rightarrow> Inr (PFloat (Finite r))
            | _ \<Rightarrow> Inl OverflowError))"
| "py_truediv x y =
     (case float_of x of
        Inl e \<Rightarrow> Inl e
      | Inr a \<Rightarrow> (case float_of y of
                    Inl e \<Rightarrow> Inl e
                  | Inr b \<Rightarrow> if b = Finite 0 then Inl ZeroDivisionError
                            else Inr (PFloat (fdiv a b))))"

text \<open>
  \<^verbatim>\<open>x <= y\<close>. Python compares an \<^verbatim>\<open>int\<close> with a \<^verbatim>\<open>float\<close> by their exact values, without
  converting.
\<close>

fun exact_value :: "pynum \<Rightarrow> double" where
  "exact_value (PInt n) = Finite (of_int n)"
| "exact_value (PFloat x) = x"

definition py_le :: "pynum \<Rightarrow> pynum \<Rightarrow> bool" where
  "py_le x y = fle (exact_value x) (exact_value y)"

subsection \<open>The class ProductionLine\<close>

record ProductionLine =
  r_b :: pynum
  T_0 :: pynum
  W_0 :: pynum
  priv_name :: "string option"

text \<open>
  \<^verbatim>\<open>__init__(self, r_b, T_0, name=None)\<close>: stores the two parameters, the critical WIP
  \<^verbatim>\<open>W_0 = r_b * T_0\<close> and the name. There is no check of the arguments; the product is
  the only operation that can raise.
\<close>

definition ProductionLine_init :: "pynum \<Rightarrow> pynum \<Rightarrow> string option \<Rightarrow> error + ProductionLine" where
  "ProductionLine_init rb T0 nm =
     (case py_mul rb T0 of
        Inl e \<Rightarrow> Inl e
      | Inr p \<Rightarrow> Inr \<lparr>r_b = rb, T_0 = T0, W_0 = p, priv_name = nm\<rparr>)"

text \<open>The property \<^verbatim>\<open>name\<close>.\<close>

definition name :: "ProductionLine \<Rightarrow> string option" where
  "name self = priv_name self"

text \<open>
  \<^verbatim>\<open>CT_best\<close>: \<^verbatim>\<open>if w <= self.W_0: return self.T_0 else: return w / self.r_b\<close>.
\<close>

definition CT_best :: "ProductionLine \<Rightarrow> pynum \<Rightarrow> error + pynum" where
  "CT_best self w = (if py_le w (W_0 self) then Inr (T_0 self) else py_truediv w (r_b self))"

text \<open>
  \<^verbatim>\<open>TH_best\<close>: \<^verbatim>\<open>if w <= self.W_0: return w / self.T_0 else: return self.r_b\<close>.
\<close>

definition TH_best :: "ProductionLine \<Rightarrow> pynum \<Rightarrow> error + pynum" where
  "TH_best self w = (if py_le w (W_0 self) then py_truediv w (T_0 self) else Inr (r_b self))"

text \<open>\<^verbatim>\<open>CT_worst\<close>: \<^verbatim>\<open>return w * self.T_0\<close>.\<close>

definition CT_worst :: "ProductionLine \<Rightarrow> pynum \<Rightarrow> error + pynum" where
  "CT_worst self w = py_mul w (T_0 self)"

text \<open>\<^verbatim>\<open>TH_worst\<close>: \<^verbatim>\<open>return 1 / self.T_0\<close>.\<close>

definition TH_worst :: "ProductionLine \<Rightarrow> error + pynum" where
  "TH_worst self = py_truediv (PInt 1) (T_0 self)"

text \<open>
  \<^verbatim>\<open>CT_PWC\<close>: \<^verbatim>\<open>return self.T_0 + (w - 1) / self.r_b\<close>, evaluated as \<open>w - 1\<close>, then the
  quotient, then the sum.
\<close>

definition CT_PWC :: "ProductionLine \<Rightarrow> pynum \<Rightarrow> error + pynum" where
  "CT_PWC self w =
     (case py_sub w (PInt 1) of
        Inl e \<Rightarrow> Inl e
      | Inr s \<Rightarrow> (case py_truediv s (r_b self) of
                    Inl e \<Rightarrow> Inl e
                  | Inr q \<Rightarrow> py_add (T_0 self) q))"

text \<open>
  \<^verbatim>\<open>TH_PWC\<close>: \<^verbatim>\<open>return (w / (self.W_0 + w - 1)) * self.r_b\<close>, evaluated as \<open>W_0 + w\<close>,
  then \<open>- 1\<close>, then the quotient, then the product.
\<close>

definition TH_PWC :: "ProductionLine \<Rightarrow> pynum \<Rightarrow> error + pynum" where
  "TH_PWC self w =
     (case py_add (W_0 self) w of
        Inl e \<Rightarrow> Inl e
      | Inr s \<Rightarrow> (case py_sub s (PInt 1) of
                    Inl e \<Rightarrow> Inl e
                  | Inr d \<Rightarrow> (case py_truediv w d of
                                Inl e \<Rightarrow> Inl e
                              | Inr q \<Rightarrow> py_mul q (r_b self))))"

subsection \<open>The table of scenarios\<close>

text \<open>
  The data frame built by \<^verbatim>\<open>df_scenarios\<close>: its index and its seven columns, each a
  list with one entry per row, in row order. A column holds the values its method
  returned; the conversion pandas applies when it stores a column whose values mix
  \<^verbatim>\<open>int\<close> and \<^verbatim>\<open>float\<close> is not part of the model (with \<^verbatim>\<open>float\<close> parameters every method
  returns a \<^verbatim>\<open>float\<close> and there is none).
\<close>

record DataFrame =
  df_index :: "int list"
  WIP :: "int list"
  TH_Best_Case :: "pynum list"
  TH_Worst_Case :: "pynum list"
  TH_Practical_Worst_Case :: "pynum list"
  CT_Best_Case :: "pynum list"
  CT_Worst_Case :: "pynum list"
  CT_Practical_Worst_Case :: "pynum list"

text \<open>
  \<^verbatim>\<open>Series.apply(f)\<close>: calls \<open>f\<close> on each element in order; the first exception ends the
  call.
\<close>

fun series_apply :: "('a \<Rightarrow> error + 'b) \<Rightarrow> 'a list \<Rightarrow> error + 'b list" where
  "series_apply f [] = Inr []"
| "series_apply f (x # xs) =
     (case f x of
        Inl e \<Rightarrow> Inl e
      | Inr y \<Rightarrow> (case series_apply f xs of
                    Inl e \<Rightarrow> Inl e
                  | Inr ys \<Rightarrow> Inr (y # ys)))"

text \<open>
  \<^verbatim>\<open>df_scenarios(ProductionLine, max_wip)\<close>. The index is \<^verbatim>\<open>np.arange(1, max_wip+1)\<close>,
  the integers from 1 to \<open>max_wip\<close> (none when \<open>max_wip < 1\<close>); the column \<^verbatim>\<open>WIP\<close> is a
  copy of the index, and its elements reach the methods as \<^verbatim>\<open>int\<close>s; \<^verbatim>\<open>TH Worst Case\<close> is
  one scalar, set in every row; the other five columns apply a method to the column
  \<^verbatim>\<open>WIP\<close>. The columns are computed in the order of the source, so the first exception is
  the one that is raised.
\<close>

definition df_scenarios :: "ProductionLine \<Rightarrow> int \<Rightarrow> error + DataFrame" where
  "df_scenarios line max_wip =
     (let idx = [1..max_wip]; wip = idx in
      (case series_apply (\<lambda>w. TH_best line (PInt w)) wip of Inl e \<Rightarrow> Inl e | Inr th_best \<Rightarrow>
      (case TH_worst line of Inl e \<Rightarrow> Inl e | Inr th_worst \<Rightarrow>
      (case series_apply (\<lambda>w. TH_PWC line (PInt w)) wip of Inl e \<Rightarrow> Inl e | Inr th_pwc \<Rightarrow>
      (case series_apply (\<lambda>w. CT_best line (PInt w)) wip of Inl e \<Rightarrow> Inl e | Inr ct_best \<Rightarrow>
      (case series_apply (\<lambda>w. CT_worst line (PInt w)) wip of Inl e \<Rightarrow> Inl e | Inr ct_worst \<Rightarrow>
      (case series_apply (\<lambda>w. CT_PWC line (PInt w)) wip of Inl e \<Rightarrow> Inl e | Inr ct_pwc \<Rightarrow>
        Inr \<lparr>df_index = idx, WIP = wip,
             TH_Best_Case = th_best,
             TH_Worst_Case = replicate (length idx) th_worst,
             TH_Practical_Worst_Case = th_pwc,
             CT_Best_Case = ct_best,
             CT_Worst_Case = ct_worst,
             CT_Practical_Worst_Case = ct_pwc\<rparr>)))))))"

section \<open>Properties of rounding\<close>

subsection \<open>Powers of two and the binary exponent\<close>

lemma two_powi_pos: "0 < (2::rat) powi e"
  by (simp add: zero_less_power_int)

lemma two_powi_add: "(2::rat) powi (a + b) = 2 powi a * 2 powi b"
  by (simp add: power_int_add)

lemma two_powi_diff: "(2::rat) powi (a - b) = 2 powi a / 2 powi b"
  by (simp add: power_int_diff)

lemma two_powi_mono: "a \<le> b \<Longrightarrow> (2::rat) powi a \<le> 2 powi b"
  by (rule power_int_increasing) simp_all

lemma two_powi_less_iff: "(2::rat) powi a < 2 powi b \<longleftrightarrow> a < b"
proof
  assume "(2::rat) powi a < 2 powi b"
  show "a < b"
  proof (rule ccontr)
    assume "\<not> a < b"
    then have "b \<le> a" by simp
    then have "(2::rat) powi b \<le> 2 powi a" by (rule two_powi_mono)
    with \<open>(2::rat) powi a < 2 powi b\<close> show False by simp
  qed
next
  assume "a < b"
  then show "(2::rat) powi a < 2 powi b"
    by (rule power_int_strict_increasing) simp
qed

lemma two_powi_le_iff: "(2::rat) powi a \<le> 2 powi b \<longleftrightarrow> a \<le> b"
  using two_powi_less_iff [of b a] by (auto simp: not_less [symmetric])

lemma floor_log2_bounds:
  assumes "0 < x"
  shows "2 powi (floor_log2 x) \<le> x \<and> x < 2 powi (floor_log2 x + 1)"
proof (cases "1 \<le> x")
  case True
  define n where "n = \<lfloor>x\<rfloor>"
  have n1: "1 \<le> n" using True by (simp add: n_def le_floor_iff)
  have nx: "of_int n \<le> x" and xn: "x < of_int n + 1"
    unfolding n_def by linarith+
  from n1 have bl: "1 \<le> bitlen n"
    using bitlen_eq_zero_iff [of n] bitlen_nonneg [of n] by linarith
  from n1 have b: "2 ^ nat (bitlen n - 1) \<le> n" "n < 2 ^ nat (bitlen n)"
    using bitlen_bounds [of n] by simp_all
  have fl: "floor_log2 x = bitlen n - 1"
    using True by (simp add: floor_log2_def n_def)
  have "(2::rat) powi (bitlen n - 1) = 2 ^ nat (bitlen n - 1)"
    using bl by (simp add: power_int_nonneg_exp)
  also have "\<dots> = of_int (2 ^ nat (bitlen n - 1))" by simp
  also have "\<dots> \<le> of_int n" using b(1) by (simp only: of_int_le_iff)
  finally have lo: "(2::rat) powi (bitlen n - 1) \<le> x" using nx by linarith
  have "n + 1 \<le> 2 ^ nat (bitlen n)" using b(2) by simp
  then have "(of_int (n + 1) :: rat) \<le> of_int (2 ^ nat (bitlen n))"
    by (simp only: of_int_le_iff)
  then have "of_int n + 1 \<le> (2::rat) ^ nat (bitlen n)" by simp
  also have "\<dots> = 2 powi (bitlen n)"
    using bl by (simp add: power_int_nonneg_exp)
  finally have "x < 2 powi (bitlen n)" using xn by linarith
  then have hi: "x < 2 powi (bitlen n - 1 + 1)" by simp
  from lo hi show ?thesis by (simp only: fl) 
next
  case False
  then have x1: "x < 1" by simp
  define c where "c = \<lceil>1 / x\<rceil>"
  have yc: "1 / x \<le> of_int c" and cy: "of_int c - 1 < 1 / x"
    unfolding c_def by linarith+
  have "1 < 1 / x" using assms x1 by (simp add: field_simps)
  with yc have "(1::rat) < of_int c" by simp
  then have c2: "2 \<le> c" by linarith
  define k where "k = bitlen (c - 1)"
  from c2 have k1: "1 \<le> k"
    using bitlen_eq_zero_iff [of "c - 1"] bitlen_nonneg [of "c - 1"] unfolding k_def by linarith
  from c2 have b: "2 ^ nat (k - 1) \<le> c - 1" "c - 1 < 2 ^ nat k"
    using bitlen_bounds [of "c - 1"] by (simp_all add: k_def)
  have fl: "floor_log2 x = - k"
    using False by (simp add: floor_log2_def c_def k_def)
  have "c \<le> 2 ^ nat k" using b(2) by simp
  then have "(of_int c :: rat) \<le> 2 ^ nat k" by simp
  with yc have "1 / x \<le> 2 ^ nat k" by linarith
  then have "1 / 2 ^ nat k \<le> x"
    using assms by (simp add: field_simps)
  moreover have "(2::rat) powi (- k) = 1 / 2 ^ nat k"
    using k1 by (simp add: power_int_minus_divide power_int_nonneg_exp)
  ultimately have lo: "2 powi (- k) \<le> x" by simp
  have "(of_int (2 ^ nat (k - 1)) :: rat) \<le> of_int (c - 1)"
    using b(1) by (simp only: of_int_le_iff)
  then have "(2::rat) ^ nat (k - 1) \<le> of_int c - 1" by simp
  with cy have "2 ^ nat (k - 1) < 1 / x" by linarith
  then have "x < 1 / 2 ^ nat (k - 1)"
    using assms by (simp add: field_simps)
  moreover have "(2::rat) powi (- k + 1) = 1 / 2 ^ nat (k - 1)"
  proof -
    have "(2::rat) powi (- k + 1) = 2 powi (- (k - 1))" by simp
    also have "\<dots> = 1 / 2 powi (k - 1)" by (rule power_int_minus_divide)
    also have "\<dots> = 1 / 2 ^ nat (k - 1)" using k1 by (simp add: power_int_nonneg_exp)
    finally show ?thesis .
  qed
  ultimately have hi: "x < 2 powi (- k + 1)" by simp
  from lo hi show ?thesis by (simp only: fl)
qed


lemma floor_log2_mono:
  assumes "0 < x" and "x \<le> y"
  shows "floor_log2 x \<le> floor_log2 y"
proof -
  have y: "0 < y" using assms by simp
  from floor_log2_bounds [OF assms(1)] have "2 powi (floor_log2 x) \<le> x" by simp
  also note assms(2)
  also from floor_log2_bounds [OF y] have "y < 2 powi (floor_log2 y + 1)" by simp
  finally have "floor_log2 x < floor_log2 y + 1" by (simp only: two_powi_less_iff)
  then show ?thesis by simp
qed

subsection \<open>Rounding to the nearest integer\<close>

lemma rhe_of_int: "round_half_even (of_int k) = k"
  by (simp add: round_half_even_def)

lemma rhe_floor_bounds: "\<lfloor>x\<rfloor> \<le> round_half_even x \<and> round_half_even x \<le> \<lfloor>x\<rfloor> + 1"
  by (simp add: round_half_even_def Let_def)

lemma rhe_error: "\<bar>of_int (round_half_even x) - x\<bar> \<le> 1/2"
proof -
  have "of_int \<lfloor>x\<rfloor> \<le> x" and "x < of_int \<lfloor>x\<rfloor> + 1" by linarith+
  then show ?thesis
    by (auto simp: round_half_even_def Let_def abs_le_iff)
qed

lemma rhe_mono:
  assumes "x \<le> y"
  shows "round_half_even x \<le> round_half_even y"
proof (cases "\<lfloor>x\<rfloor> = \<lfloor>y\<rfloor>")
  case True
  with assms show ?thesis
    by (auto simp: round_half_even_def Let_def)
next
  case False
  with assms have "\<lfloor>x\<rfloor> < \<lfloor>y\<rfloor>"
    using floor_mono [of x y] by linarith
  then have "\<lfloor>x\<rfloor> + 1 \<le> \<lfloor>y\<rfloor>" by simp
  with rhe_floor_bounds [of x] rhe_floor_bounds [of y] show ?thesis by linarith
qed

lemma rhe_minus: "round_half_even (- x) = - round_half_even x"
proof (cases "x = of_int \<lfloor>x\<rfloor>")
  case True
  then obtain k where "x = of_int k" ..
  then have "- x = of_int (- k)" by simp
  then show ?thesis using \<open>x = of_int k\<close> by (simp only: rhe_of_int)
next
  case False
  have b0: "of_int \<lfloor>x\<rfloor> \<le> x" and b2: "x < of_int \<lfloor>x\<rfloor> + 1" by linarith+
  from b0 False have b1: "of_int \<lfloor>x\<rfloor> < x" by (metis less_le)
  have fl: "\<lfloor>- x\<rfloor> = - \<lfloor>x\<rfloor> - 1"
    using b1 b2 by (intro floor_unique) simp_all
  show ?thesis
    using b1 b2 by (auto simp: round_half_even_def Let_def fl)
qed

lemma rhe_nonneg: "0 \<le> x \<Longrightarrow> 0 \<le> round_half_even x"
  using rhe_mono [of 0 x] rhe_of_int [of 0] by simp

subsection \<open>Rounding to 53 bits: sign, monotonicity, error\<close>

lemma ru_alt: "x \<noteq> 0 \<Longrightarrow>
    round_unbounded x = of_int (round_half_even (x / 2 powi (expo x - 52))) * 2 powi (expo x - 52)"
  by (simp add: round_unbounded_def)

lemma ru_zero: "round_unbounded 0 = 0"
  by (simp add: round_unbounded_def)

lemma ru_minus: "round_unbounded (- x) = - round_unbounded x"
proof (cases "x = 0")
  case True
  then show ?thesis by (simp add: ru_zero)
next
  case False
  have e: "expo (- x) = expo x" by (simp add: expo_def)
  show ?thesis
    using False by (simp add: ru_alt e rhe_minus)
qed

lemma expo_mono: "0 < x \<Longrightarrow> x \<le> y \<Longrightarrow> expo x \<le> expo y"
  using floor_log2_mono [of x y] by (simp add: expo_def max.coboundedI1)

lemma expo_upper: "0 < x \<Longrightarrow> x < 2 powi (expo x + 1)"
proof -
  assume x: "0 < x"
  from floor_log2_bounds [OF x] have "x < 2 powi (floor_log2 x + 1)" by simp
  also have "(2::rat) powi (floor_log2 x + 1) \<le> 2 powi (expo x + 1)"
    using x by (intro two_powi_mono) (simp add: expo_def)
  finally show ?thesis .
qed

lemma expo_lower: "0 < x \<Longrightarrow> 2 powi (- 1022) \<le> x \<Longrightarrow> 2 powi (expo x) \<le> x"
proof -
  assume x: "0 < x" and n: "2 powi (- 1022) \<le> x"
  from floor_log2_bounds [OF x] have lo: "2 powi (floor_log2 x) \<le> x" by simp
  show ?thesis
  proof (cases "floor_log2 x \<le> - 1022")
    case True
    then have "expo x = - 1022" using x by (simp add: expo_def)
    with n show ?thesis by simp
  next
    case False
    then have "expo x = floor_log2 x" using x by (simp add: expo_def)
    with lo show ?thesis by simp
  qed
qed


lemma expo_ge: "- 1022 \<le> expo x"
  by (simp add: expo_def)

lemma ru_nonneg: "0 \<le> x \<Longrightarrow> 0 \<le> round_unbounded x"
proof (cases "x = 0")
  case True
  then show ?thesis by (simp add: ru_zero)
next
  case False
  assume "0 \<le> x"
  then have "0 \<le> x / 2 powi (expo x - 52)"
    using two_powi_pos [of "expo x - 52"] by simp
  then have "0 \<le> round_half_even (x / 2 powi (expo x - 52))" by (rule rhe_nonneg)
  then show ?thesis
    using False two_powi_pos [of "expo x - 52"] by (simp add: ru_alt)
qed

lemma ru_pos_alt: "0 < x \<Longrightarrow>
    round_unbounded x = of_int (round_half_even (x / 2 powi (expo x - 52))) * 2 powi (expo x - 52)"
  by (rule ru_alt) simp

lemma ru_le_pow:
  assumes "0 < x"
  shows "round_unbounded x \<le> 2 powi (expo x + 1)"
proof -
  let ?u = "(2::rat) powi (expo x - 52)"
  have u: "0 < ?u" by (rule two_powi_pos)
  have "x / ?u \<le> 2 powi (expo x + 1) / ?u"
    using expo_upper [OF assms] u by (simp add: divide_right_mono)
  also have "2 powi (expo x + 1) / ?u = (2::rat) powi 53"
    by (simp flip: two_powi_diff)
  also have "\<dots> = of_int (2 ^ 53)" by simp
  finally have "round_half_even (x / ?u) \<le> round_half_even (of_int (2 ^ 53))"
    by (rule rhe_mono)
  then have "round_half_even (x / ?u) \<le> 2 ^ 53" by (simp only: rhe_of_int)
  then have "(of_int (round_half_even (x / ?u)) :: rat) \<le> of_int (2 ^ 53)"
    by (simp only: of_int_le_iff)
  then have "of_int (round_half_even (x / ?u)) * ?u \<le> of_int (2 ^ 53) * ?u"
    using u by (simp only: mult_le_cancel_right_pos)
  also have "of_int (2 ^ 53) * ?u = 2 powi 53 * ?u" by simp
  also have "\<dots> = 2 powi (53 + (expo x - 52))" by (simp only: two_powi_add)
  also have "53 + (expo x - 52) = expo x + 1" by simp
  finally show ?thesis by (simp only: ru_pos_alt [OF assms])
qed

lemma ru_ge_pow:
  assumes "0 < x" and "2 powi (- 1022) \<le> x"
  shows "2 powi (expo x) \<le> round_unbounded x"
proof -
  let ?u = "(2::rat) powi (expo x - 52)"
  have u: "0 < ?u" by (rule two_powi_pos)
  have "(2::rat) powi (expo x) = 2 powi (52 + (expo x - 52))" by simp
  also have "\<dots> = 2 powi 52 * ?u" by (simp only: two_powi_add)
  also have "\<dots> = of_int (2 ^ 52) * ?u" by simp
  finally have split: "(2::rat) powi (expo x) = of_int (2 ^ 52) * ?u" .
  have "of_int (2 ^ 52) * ?u \<le> x"
    using expo_lower [OF assms] by (simp only: split)
  then have "of_int (2 ^ 52) \<le> x / ?u"
    using u by (simp only: pos_le_divide_eq)
  then have "round_half_even (of_int (2 ^ 52)) \<le> round_half_even (x / ?u)"
    by (rule rhe_mono)
  then have "2 ^ 52 \<le> round_half_even (x / ?u)" by (simp only: rhe_of_int)
  then have "(of_int (2 ^ 52) :: rat) \<le> of_int (round_half_even (x / ?u))"
    by (simp only: of_int_le_iff)
  then have "of_int (2 ^ 52) * ?u \<le> of_int (round_half_even (x / ?u)) * ?u"
    using u by (simp only: mult_le_cancel_right_pos)
  then show ?thesis by (simp only: ru_pos_alt [OF assms(1)] split)
qed

lemma ru_mono_pos:
  assumes "0 < x" and "x \<le> y"
  shows "round_unbounded x \<le> round_unbounded y"
proof -
  have y: "0 < y" using assms by simp
  have le: "expo x \<le> expo y" using assms by (rule expo_mono)
  show ?thesis
  proof (cases "expo x = expo y")
    case True
    let ?u = "(2::rat) powi (expo x - 52)"
    have u: "0 < ?u" by (rule two_powi_pos)
    have "x / ?u \<le> y / ?u" using assms(2) u by (simp add: divide_right_mono)
    then have "round_half_even (x / ?u) \<le> round_half_even (y / ?u)" by (rule rhe_mono)
    then have "(of_int (round_half_even (x / ?u)) :: rat) \<le> of_int (round_half_even (y / ?u))"
      by (simp only: of_int_le_iff)
    then have "of_int (round_half_even (x / ?u)) * ?u \<le> of_int (round_half_even (y / ?u)) * ?u"
      using u by (simp only: mult_le_cancel_right_pos)
    then show ?thesis by (simp only: ru_pos_alt [OF assms(1)] ru_pos_alt [OF y] True [symmetric])
  next
    case False
    with le have lt: "expo x + 1 \<le> expo y" by simp
    then have "- 1022 < expo y" using expo_ge [of x] by simp
    then have "expo y = floor_log2 y" using y by (simp add: expo_def)
    then have "2 powi (expo y) \<le> y" using floor_log2_bounds [OF y] by simp
    moreover have "(2::rat) powi (- 1022) \<le> 2 powi (expo y)"
      by (intro two_powi_mono) (rule expo_ge)
    ultimately have "2 powi (- 1022) \<le> y" by simp
    with y have "2 powi (expo y) \<le> round_unbounded y" by (rule ru_ge_pow)
    moreover have "round_unbounded x \<le> 2 powi (expo x + 1)" using assms(1) by (rule ru_le_pow)
    moreover have "(2::rat) powi (expo x + 1) \<le> 2 powi (expo y)" using lt by (rule two_powi_mono)
    ultimately show ?thesis by simp
  qed
qed

lemma ru_mono:
  assumes "x \<le> y"
  shows "round_unbounded x \<le> round_unbounded y"
proof -
  consider "0 < x" | "x \<le> 0" "0 \<le> y" | "y < 0" by linarith
  then show ?thesis
  proof cases
    case 1
    then show ?thesis using assms by (rule ru_mono_pos)
  next
    case 2
    have "round_unbounded x \<le> 0"
      using ru_nonneg [of "- x"] 2(1) by (simp add: ru_minus)
    moreover have "0 \<le> round_unbounded y" using 2(2) by (rule ru_nonneg)
    ultimately show ?thesis by simp
  next
    case 3
    then have "0 < - y" "- y \<le> - x" using assms by simp_all
    then have "round_unbounded (- y) \<le> round_unbounded (- x)" by (rule ru_mono_pos)
    then show ?thesis by (simp add: ru_minus)
  qed
qed

lemma ru_error:
  assumes "x \<noteq> 0"
  shows "\<bar>round_unbounded x - x\<bar> \<le> 2 powi (expo x - 53)"
proof -
  let ?u = "(2::rat) powi (expo x - 52)"
  have u: "0 < ?u" by (rule two_powi_pos)
  have "round_unbounded x - x = (of_int (round_half_even (x / ?u)) - x / ?u) * ?u"
    using assms u by (simp add: ru_alt left_diff_distrib)
  then have "\<bar>round_unbounded x - x\<bar> = \<bar>of_int (round_half_even (x / ?u)) - x / ?u\<bar> * ?u"
    using u by (simp add: abs_mult)
  also have "\<dots> \<le> 1/2 * ?u"
    using rhe_error [of "x / ?u"] u by (simp only: mult_le_cancel_right_pos)
  also have "1/2 * ?u = 2 powi (expo x - 53)"
  proof -
    have "(2::rat) powi (expo x - 52) = 2 powi (expo x - 53 + 1)" by simp
    also have "\<dots> = 2 powi (expo x - 53) * 2" by (simp only: two_powi_add) simp
    finally show ?thesis by simp
  qed
  finally show ?thesis .
qed

lemma ru_rel_error:
  assumes "2 powi (- 1022) \<le> \<bar>x\<bar>"
  shows "\<bar>round_unbounded x - x\<bar> \<le> \<bar>x\<bar> / 2 ^ 53"
proof -
  have pos: "0 < \<bar>x\<bar>" using assms two_powi_pos [of "- 1022"] by linarith
  then have x0: "x \<noteq> 0" by simp
  have e: "expo x = expo \<bar>x\<bar>" by (simp add: expo_def)
  have "2 powi (expo x) \<le> \<bar>x\<bar>"
    using expo_lower [OF pos assms] by (simp add: e)
  then have "2 powi (expo x) / 2 ^ 53 \<le> \<bar>x\<bar> / 2 ^ 53"
    by (simp add: divide_right_mono)
  moreover have "(2::rat) powi (expo x - 53) = 2 powi (expo x) / 2 ^ 53"
    by (simp add: two_powi_diff)
  ultimately show ?thesis using ru_error [OF x0] by simp
qed

subsection \<open>Exactly representable values\<close>

lemma ru_exact_pos:
  assumes "0 < n" and "n < 2 ^ 53" and "- 1074 \<le> k"
  shows "round_unbounded (of_int n * 2 powi k) = of_int n * 2 powi k"
proof -
  let ?x = "(of_int n :: rat) * 2 powi k"
  have pk: "0 < (2::rat) powi k" by (rule two_powi_pos)
  have x: "0 < ?x" using assms(1) pk by simp
  have "(of_int n :: rat) < of_int (2 ^ 53)" using assms(2) by (simp only: of_int_less_iff)
  then have "(of_int n :: rat) < 2 powi 53" by simp
  then have "?x < 2 powi 53 * 2 powi k" using pk by (simp only: mult_less_cancel_right_pos)
  also have "\<dots> = 2 powi (53 + k)" by (simp only: two_powi_add)
  finally have up: "?x < 2 powi (53 + k)" .
  from floor_log2_bounds [OF x] have "2 powi (floor_log2 ?x) \<le> ?x" by simp
  with up have "(2::rat) powi (floor_log2 ?x) < 2 powi (53 + k)" by simp
  then have "floor_log2 ?x < 53 + k" by (simp only: two_powi_less_iff)
  then have e: "expo ?x - 52 \<le> k" using x assms(3) by (simp add: expo_def)
  define j where "j = nat (k - (expo ?x - 52))"
  have kj: "k = (expo ?x - 52) + int j" using e by (simp add: j_def)
  have "?x / 2 powi (expo ?x - 52) = of_int n * (2 powi k / 2 powi (expo ?x - 52))"
    by simp
  also have "2 powi k / 2 powi (expo ?x - 52) = (2::rat) powi (k - (expo ?x - 52))"
    by (simp only: two_powi_diff)
  also have "k - (expo ?x - 52) = int j" using kj by simp
  also have "of_int n * (2::rat) powi (int j) = of_int (n * 2 ^ j)" by simp
  finally have q: "?x / 2 powi (expo ?x - 52) = of_int (n * 2 ^ j)" .
  have "round_unbounded ?x = of_int (n * 2 ^ j) * 2 powi (expo ?x - 52)"
    by (simp only: ru_pos_alt [OF x] q rhe_of_int)
  also have "\<dots> = ?x / 2 powi (expo ?x - 52) * 2 powi (expo ?x - 52)" by (simp only: q)
  also have "\<dots> = ?x" using two_powi_pos [of "expo ?x - 52"] by simp
  finally show ?thesis .
qed

lemma ru_exact:
  assumes "\<bar>n\<bar> \<le> 2 ^ 53" and "- 1074 \<le> k"
  shows "round_unbounded (of_int n * 2 powi k) = of_int n * 2 powi k"
proof -
  have pos: "round_unbounded (of_int m * 2 powi k) = of_int m * 2 powi k"
    if "0 < m" "m \<le> 2 ^ 53" for m
  proof (cases "m = 2 ^ 53")
    case False
    with that have "m < 2 ^ 53" by simp
    with that(1) show ?thesis using assms(2) by (intro ru_exact_pos)
  next
    case True
    have "(of_int m :: rat) * 2 powi k = of_int (2 ^ 52) * (2 powi 1 * 2 powi k)"
      by (simp add: True)
    also have "\<dots> = of_int (2 ^ 52) * 2 powi (1 + k)" by (simp only: two_powi_add)
    finally have eq: "(of_int m :: rat) * 2 powi k = of_int (2 ^ 52) * 2 powi (1 + k)" .
    have "round_unbounded (of_int (2 ^ 52) * 2 powi (1 + k)) = of_int (2 ^ 52) * 2 powi (1 + k)"
      using assms(2) by (intro ru_exact_pos) simp_all
    then show ?thesis by (simp only: eq)
  qed
  consider "0 < n" | "n = 0" | "n < 0" by linarith
  then show ?thesis
  proof cases
    case 1
    then show ?thesis using assms(1) by (intro pos) simp_all
  next
    case 2
    then show ?thesis by (simp add: ru_zero)
  next
    case 3
    then have "round_unbounded (of_int (- n) * 2 powi k) = of_int (- n) * 2 powi k"
      using assms(1) by (intro pos) simp_all
    then have "round_unbounded (- (of_int n * 2 powi k)) = - (of_int n * 2 powi k)" by simp
    then show ?thesis by (simp only: ru_minus neg_equal_iff_equal)
  qed
qed

lemma ru_two_powi: "- 1074 \<le> k \<Longrightarrow> round_unbounded (2 powi k) = 2 powi k"
  using ru_exact [of 1 k] by simp

lemma ru_of_int: "\<bar>n\<bar> \<le> 2 ^ 53 \<Longrightarrow> round_unbounded (of_int n) = of_int n"
  using ru_exact [of n 0] by simp

lemma ru_abs: "\<bar>round_unbounded x\<bar> = round_unbounded \<bar>x\<bar>"
proof (cases "0 \<le> x")
  case True
  then show ?thesis using ru_nonneg [of x] by simp
next
  case False
  then have "0 \<le> - x" by simp
  then have "0 \<le> round_unbounded (- x)" by (rule ru_nonneg)
  then show ?thesis using False by (simp add: ru_minus)
qed

lemma ru_abs_le_pow:
  assumes "\<bar>x\<bar> \<le> 2 powi k" and "- 1074 \<le> k"
  shows "\<bar>round_unbounded x\<bar> \<le> 2 powi k"
proof -
  have "round_unbounded \<bar>x\<bar> \<le> round_unbounded (2 powi k)" using assms(1) by (rule ru_mono)
  then show ?thesis by (simp only: ru_abs ru_two_powi [OF assms(2)])
qed

lemma rd_Finite_iff: "round_double x = Finite r \<longleftrightarrow> r = round_unbounded x \<and> \<bar>round_unbounded x\<bar> < 2 ^ 1024"
  by (auto simp: round_double_def Let_def)

lemma rd_finite:
  assumes "\<bar>x\<bar> \<le> 2 powi k" and "- 1074 \<le> k" and "k \<le> 1023"
  shows "round_double x = Finite (round_unbounded x)"
proof -
  have "\<bar>round_unbounded x\<bar> \<le> 2 powi k" using assms(1,2) by (rule ru_abs_le_pow)
  also have "(2::rat) powi k \<le> 2 powi 1023" using assms(3) by (rule two_powi_mono)
  also have "(2::rat) powi 1023 < 2 ^ 1024" by simp
  finally show ?thesis by (simp add: rd_Finite_iff)
qed

lemma is_double_iff: "is_double q \<longleftrightarrow> round_unbounded q = q \<and> \<bar>q\<bar> < 2 ^ 1024"
  unfolding is_double_def rd_Finite_iff by metis

lemma is_double_ru: "is_double q \<Longrightarrow> round_unbounded q = q"
  by (simp only: is_double_iff)

lemma is_double_bound: "is_double q \<Longrightarrow> \<bar>q\<bar> < 2 ^ 1024"
  by (simp only: is_double_iff)

lemma is_double_dyadic:
  assumes "\<bar>n\<bar> \<le> 2 ^ 53" and "- 1074 \<le> k" and "\<bar>of_int n * 2 powi k\<bar> < (2::rat) ^ 1024"
  shows "is_double (of_int n * 2 powi k)"
  using ru_exact [OF assms(1,2)] assms(3) by (simp only: is_double_iff)

lemma is_double_of_int: "\<bar>n\<bar> \<le> 2 ^ 53 \<Longrightarrow> is_double (of_int n)"
proof -
  assume n: "\<bar>n\<bar> \<le> 2 ^ 53"
  then have "(of_int \<bar>n\<bar> :: rat) \<le> of_int (2 ^ 53)" by (simp only: of_int_le_iff)
  then have "\<bar>of_int n :: rat\<bar> \<le> 2 ^ 53" by simp
  also have "(2::rat) ^ 53 < 2 ^ 1024" by simp
  finally show ?thesis using ru_of_int [OF n] by (simp only: is_double_iff)
qed

lemma is_double_zero: "is_double 0"
  using is_double_of_int [of 0] by simp

lemma is_double_minus: "is_double q \<Longrightarrow> is_double (- q)"
  by (simp add: is_double_iff ru_minus)

lemma rd_of_double: "is_double q \<Longrightarrow> round_double q = Finite q"
  by (simp add: is_double_def)

lemma rd_zero: "round_double 0 = Finite 0"
  using is_double_zero by (simp add: is_double_def)

lemma rd_minus: "round_double (- x) = fneg (round_double x)"
  by (simp add: round_double_def Let_def ru_minus)

lemma rd_not_NaN: "round_double x \<noteq> NaN"
  by (simp add: round_double_def Let_def)

lemma rd_mono:
  assumes "x \<le> y"
  shows "fle (round_double x) (round_double y)"
proof -
  from assms have "round_unbounded x \<le> round_unbounded y" by (rule ru_mono)
  then show ?thesis
    by (auto simp: round_double_def Let_def abs_le_iff not_le)
qed

lemma rd_nonneg:
  assumes "0 \<le> x"
  shows "round_double x = PosInf \<or> (\<exists>r. round_double x = Finite r \<and> 0 \<le> r)"
  using ru_nonneg [OF assms] by (auto simp: round_double_def Let_def)


lemma rd_eval_subnormal:
  assumes "0 < x" and "x < 2 powi (- 1022)"
  shows "round_double x = Finite (of_int (round_half_even (x / 2 powi (- 1074))) * 2 powi (- 1074))"
proof -
  from floor_log2_bounds [OF assms(1)] have "2 powi (floor_log2 x) \<le> x" by simp
  with assms(2) have "(2::rat) powi (floor_log2 x) < 2 powi (- 1022)" by simp
  then have "floor_log2 x < - 1022" by (simp only: two_powi_less_iff)
  then have ex: "expo x = - 1022" using assms(1) by (simp add: expo_def)
  have "round_double x = Finite (round_unbounded x)"
  proof (rule rd_finite)
    show "\<bar>x\<bar> \<le> 2 powi (- 1022)" using assms by linarith
    show "- 1074 \<le> (- 1022 :: int)" by simp
    show "(- 1022 :: int) \<le> 1023" by simp
  qed
  moreover have "(- 1022 :: int) - 52 = - 1074" by simp
  ultimately show ?thesis by (simp only: ru_pos_alt [OF assms(1)] ex)
qed

subsection \<open>Evaluating a rounding\<close>

lemma rhe_near:
  assumes "\<bar>x - of_int k\<bar> < 1/2"
  shows "round_half_even x = k"
proof -
  have "\<bar>of_int (round_half_even x) - x\<bar> \<le> 1/2" by (rule rhe_error)
  with assms have "\<bar>(of_int (round_half_even x) :: rat) - of_int k\<bar> < 1" by linarith
  then have "\<bar>(of_int (round_half_even x - k) :: rat)\<bar> < of_int 1" by simp
  then have "\<bar>round_half_even x - k\<bar> < 1"
    by (simp only: of_int_abs [symmetric] of_int_less_iff)
  then show ?thesis by linarith
qed




lemma rd_underflow_value:
  assumes "0 < x" and "x < 2 powi (- 1022)" and "\<bar>x / 2 powi (- 1074) - of_int k\<bar> < 1/2"
  shows "round_double x = Finite (of_int k * 2 powi (- 1074))"
  by (simp only: rd_eval_subnormal [OF assms(1,2)] rhe_near [OF assms(3)])

lemma rhe_tie_even:
  assumes "x = of_int k + 1/2" and "even k"
  shows "round_half_even x = k"
proof -
  have "\<lfloor>x\<rfloor> = k" unfolding assms(1) by (intro floor_unique) simp_all
  then show ?thesis using assms by (simp add: round_half_even_def Let_def)
qed

lemma rhe_tie_odd:
  assumes "x = of_int k + 1/2" and "odd k"
  shows "round_half_even x = k + 1"
proof -
  have "\<lfloor>x\<rfloor> = k" unfolding assms(1) by (intro floor_unique) simp_all
  then show ?thesis using assms by (simp add: round_half_even_def Let_def)
qed

lemma rhe_ge:
  assumes "of_int k + 1/2 < x"
  shows "k + 1 \<le> round_half_even x"
proof -
  have "\<bar>of_int (round_half_even x) - x\<bar> \<le> 1/2" by (rule rhe_error)
  with assms have "(of_int k :: rat) < of_int (round_half_even x)" by linarith
  then have "k < round_half_even x" by (simp only: of_int_less_iff)
  then show ?thesis by simp
qed

lemma rhe_le:
  assumes "x \<le> of_int k + 1/2" and "even k" and "of_int k \<le> x"
  shows "round_half_even x = k"
proof (cases "x = of_int k + 1/2")
  case True
  then show ?thesis using assms(2) by (rule rhe_tie_even)
next
  case False
  with assms(1) have "x < of_int k + 1/2" by simp
  with assms(3) have "\<bar>x - of_int k\<bar> < 1/2" by linarith
  then show ?thesis by (rule rhe_near)
qed

subsection \<open>Python operations on floats\<close>

lemma mant_le:
  assumes "0 < x"
  shows "round_half_even (x / 2 powi (expo x - 52)) \<le> 2 ^ 53"
proof -
  let ?u = "(2::rat) powi (expo x - 52)"
  have u: "0 < ?u" by (rule two_powi_pos)
  have "x / ?u \<le> 2 powi (expo x + 1) / ?u"
    using expo_upper [OF assms] u by (simp add: divide_right_mono)
  also have "2 powi (expo x + 1) / ?u = (2::rat) powi 53"
    by (simp flip: two_powi_diff)
  also have "\<dots> = of_int (2 ^ 53)" by simp
  finally have "round_half_even (x / ?u) \<le> round_half_even (of_int (2 ^ 53))"
    by (rule rhe_mono)
  then show ?thesis by (simp only: rhe_of_int)
qed

lemma ru_idem: "round_unbounded (round_unbounded x) = round_unbounded x"
proof -
  have pos: "round_unbounded (round_unbounded y) = round_unbounded y" if y: "0 < y" for y
  proof -
    let ?m = "round_half_even (y / 2 powi (expo y - 52))"
    have "0 \<le> y / 2 powi (expo y - 52)" using y two_powi_pos [of "expo y - 52"] by simp
    then have "0 \<le> ?m" by (rule rhe_nonneg)
    moreover have "?m \<le> 2 ^ 53" using y by (rule mant_le)
    ultimately have "\<bar>?m\<bar> \<le> 2 ^ 53" by simp
    moreover have "- 1074 \<le> expo y - 52" using expo_ge [of y] by simp
    ultimately have "round_unbounded (of_int ?m * 2 powi (expo y - 52)) = of_int ?m * 2 powi (expo y - 52)"
      by (rule ru_exact)
    then show ?thesis by (simp only: ru_pos_alt [OF y])
  qed
  consider "0 < x" | "x = 0" | "x < 0" by linarith
  then show ?thesis
  proof cases
    case 1
    then show ?thesis by (rule pos)
  next
    case 2
    then show ?thesis by (simp add: ru_zero)
  next
    case 3
    then have "round_unbounded (round_unbounded (- x)) = round_unbounded (- x)"
      by (intro pos) simp
    then show ?thesis by (simp only: ru_minus neg_equal_iff_equal)
  qed
qed

lemma rd_is_double: "round_double x = Finite r \<Longrightarrow> is_double r"
  by (simp add: rd_Finite_iff is_double_iff ru_idem)

lemma float_of_is_double:
  assumes "is_num w" and "float_of w = Inr (Finite c)"
  shows "is_double c"
proof (cases w)
  case (PInt n)
  with assms(2) have "round_double (of_int n) = Finite c"
    by (simp split: double.splits)
  then show ?thesis by (rule rd_is_double)
next
  case (PFloat x)
  with assms show ?thesis by simp
qed


lemma float_of_error: "float_of x = Inl e \<Longrightarrow> e = OverflowError"
  by (cases x) (auto split: double.splits)

lemma float_of_PInt_Finite:
  "round_double (of_int n) = Finite c \<Longrightarrow> float_of (PInt n) = Inr (Finite c)"
  by simp

lemma float_of_one [simp]: "float_of (PInt 1) = Inr (Finite 1)"
  using rd_of_double [OF is_double_of_int [of 1]] by simp

lemma float_of_zero [simp]: "float_of (PInt 0) = Inr (Finite 0)"
  by (simp add: rd_zero)

declare float_of.simps(2) [simp del]



lemma truediv_float:
  assumes "float_of w = Inr (Finite c)" and "a \<noteq> 0"
  shows "py_truediv w (PFloat (Finite a)) = Inr (PFloat (round_double (c / a)))"
  using assms by (cases w) simp_all



lemma rd_numeral: "numeral k \<le> (2 ^ 53 :: int) \<Longrightarrow> round_double (numeral k) = Finite (numeral k)"
  using rd_of_double [OF is_double_of_int [of "numeral k"]] by simp

lemma is_double_numeral: "numeral k \<le> (2 ^ 53 :: int) \<Longrightarrow> is_double (numeral k)"
  using is_double_of_int [of "numeral k"] by simp

lemma is_double_half: "is_double (1 / 2)"
  using is_double_dyadic [of 1 "- 1"] by simp


section \<open>Best-case laws\<close>




section \<open>Construction\<close>

text \<open>
  C5 (as the code has it). \<^verbatim>\<open>__init__\<close> checks nothing: whatever the signs of \<open>r_b\<close> and
  \<open>T_0\<close>, it stores the two parameters, \<open>W_0 = r_b * T_0\<close> (exact on two \<^verbatim>\<open>int\<close>s, the
  rounded float product otherwise) and the name. The only way it fails is the product's
  own \<^verbatim>\<open>OverflowError\<close>, when one parameter is an \<^verbatim>\<open>int\<close> without a \<^verbatim>\<open>float\<close> value and
  the other is a \<^verbatim>\<open>float\<close>.
\<close>

theorem init_no_validation:
  "ProductionLine_init (PInt i) (PInt j) nm =
     Inr \<lparr>r_b = PInt i, T_0 = PInt j, W_0 = PInt (i * j), priv_name = nm\<rparr> \<and>
   ProductionLine_init (PFloat x) (PFloat y) nm =
     Inr \<lparr>r_b = PFloat x, T_0 = PFloat y, W_0 = PFloat (fmul x y), priv_name = nm\<rparr> \<and>
   ProductionLine_init (PInt i) (PFloat y) nm =
     (case float_of (PInt i) of
        Inl e \<Rightarrow> Inl OverflowError
      | Inr x' \<Rightarrow> Inr \<lparr>r_b = PInt i, T_0 = PFloat y, W_0 = PFloat (fmul x' y), priv_name = nm\<rparr>) \<and>
   ProductionLine_init (PFloat x) (PInt j) nm =
     (case float_of (PInt j) of
        Inl e \<Rightarrow> Inl OverflowError
      | Inr y' \<Rightarrow> Inr \<lparr>r_b = PFloat x, T_0 = PInt j, W_0 = PFloat (fmul x y'), priv_name = nm\<rparr>) \<and>
   ((\<exists>line. ProductionLine_init rb T0 nm = Inr line \<and> r_b line = rb \<and> T_0 line = T0 \<and>
        py_mul rb T0 = Inr (W_0 line) \<and> name line = nm)
    \<or> ProductionLine_init rb T0 nm = Inl OverflowError)"
proof -
  have ints: "ProductionLine_init (PInt i) (PInt j) nm =
      Inr \<lparr>r_b = PInt i, T_0 = PInt j, W_0 = PInt (i * j), priv_name = nm\<rparr>"
    by (simp add: ProductionLine_init_def)
  have floats: "ProductionLine_init (PFloat x) (PFloat y) nm =
      Inr \<lparr>r_b = PFloat x, T_0 = PFloat y, W_0 = PFloat (fmul x y), priv_name = nm\<rparr>"
    by (simp add: ProductionLine_init_def float_binop_def)
  have int_float: "ProductionLine_init (PInt i) (PFloat y) nm =
      (case float_of (PInt i) of
         Inl e \<Rightarrow> Inl OverflowError
       | Inr x' \<Rightarrow> Inr \<lparr>r_b = PInt i, T_0 = PFloat y, W_0 = PFloat (fmul x' y), priv_name = nm\<rparr>)"
    by (auto simp: ProductionLine_init_def float_binop_def split: sum.splits dest: float_of_error)
  have float_int: "ProductionLine_init (PFloat x) (PInt j) nm =
      (case float_of (PInt j) of
         Inl e \<Rightarrow> Inl OverflowError
       | Inr y' \<Rightarrow> Inr \<lparr>r_b = PFloat x, T_0 = PInt j, W_0 = PFloat (fmul x y'), priv_name = nm\<rparr>)"
    by (auto simp: ProductionLine_init_def float_binop_def split: sum.splits dest: float_of_error)
  have err: "py_mul rb T0 = Inl e \<Longrightarrow> e = OverflowError" for e
    by (cases rb; cases T0) (auto simp: float_binop_def split: sum.splits dest: float_of_error)
  have any: "(\<exists>line. ProductionLine_init rb T0 nm = Inr line \<and> r_b line = rb \<and> T_0 line = T0 \<and>
        py_mul rb T0 = Inr (W_0 line) \<and> name line = nm)
      \<or> ProductionLine_init rb T0 nm = Inl OverflowError"
  proof (cases "py_mul rb T0")
    case (Inl e)
    with err have "e = OverflowError" by simp
    with Inl show ?thesis by (simp add: ProductionLine_init_def)
  next
    case (Inr p)
    then show ?thesis by (simp add: ProductionLine_init_def name_def)
  qed
  from ints floats int_float float_int any show ?thesis by blast
qed

text \<open>
  The claim as written has construction fail on a parameter that is zero or negative.
  \<^verbatim>\<open>ProductionLine(0, -3)\<close> and \<^verbatim>\<open>ProductionLine(-0.5, 10.0)\<close> both return a line.
\<close>

theorem init_rejects_nonpositive_counterexample:
  "(0::int) \<le> 0 \<and> (- 3::int) \<le> 0 \<and>
   ProductionLine_init (PInt 0) (PInt (- 3)) None =
     Inr \<lparr>r_b = PInt 0, T_0 = PInt (- 3), W_0 = PInt 0, priv_name = None\<rparr> \<and>
   is_double (- (1/2)) \<and> (- (1/2) :: rat) \<le> 0 \<and> is_double 10 \<and>
   ProductionLine_init (PFloat (Finite (- (1/2)))) (PFloat (Finite 10)) None =
     Inr \<lparr>r_b = PFloat (Finite (- (1/2))), T_0 = PFloat (Finite 10),
          W_0 = PFloat (Finite (- 5)), priv_name = None\<rparr>"
proof -
  have "round_double (- 5) = Finite (- 5)"
    by (simp add: rd_minus rd_numeral)
  then show ?thesis
    by (simp add: ProductionLine_init_def float_binop_def is_double_minus is_double_half
        is_double_numeral)
qed











section \<open>Worst-case and practical-worst-case laws\<close>




end
